theory Spec2Isabelle
  imports Complex_Main "HOL-Library.Product_Lexorder" "HOL-Library.Multiset"
begin

section \<open>Vectors, similarity and the array primitives\<close>

text \<open>
  The engine of \<^verbatim>\<open>src/doc2struct/main.py\<close> works on an \<open>N \<times> D\<close> matrix of
  embedding vectors. A matrix is the list of its rows (all of length \<open>D\<close>, as the rows of
  an array are), chunk and pivot indices are naturals and Python's unbounded
  \<^verbatim>\<open>int\<close> parameters are integers. Numbers are exact reals: the rounding of the 32-bit
  floats of the source is not modelled, and the properties below are about the order of
  the computed values, about counts and positions, and about the range of the
  normalised scores, not about the exact value of an inner product.
\<close>

type_synonym vec = "real list"
type_synonym matrix = "real list list"

datatype error = IndexError | ValueError | AssertionError

text \<open>The inner product \<^verbatim>\<open>u @ v\<close> and the matrix-vector product \<^verbatim>\<open>vecs @ w\<close>.\<close>

definition dot :: "vec \<Rightarrow> vec \<Rightarrow> real" where
  "dot u v = sum_list (map2 (*) u v)"

definition matvec :: "matrix \<Rightarrow> vec \<Rightarrow> real list" where
  "matvec vecs w = map (\<lambda>v. dot v w) vecs"

text \<open>The product \<^verbatim>\<open>A @ B.T\<close>: entry \<open>(i, j)\<close> is the inner product of row \<open>i\<close> of \<open>A\<close> and row \<open>j\<close> of \<open>B\<close>.\<close>

definition matmul_T :: "matrix \<Rightarrow> matrix \<Rightarrow> real list list" where
  "matmul_T A B = map (\<lambda>a. map (\<lambda>b. dot a b) B) A"

text \<open>\<^verbatim>\<open>vecs.mean(axis=0)\<close> of a matrix with at least one row: the column sums over \<open>N\<close>.\<close>

definition mean_axis0 :: "matrix \<Rightarrow> vec" where
  "mean_axis0 vecs =
     map (\<lambda>s. s / real (length vecs)) (foldl (map2 (+)) (hd vecs) (tl vecs))"

text \<open>
  \<^verbatim>\<open>np.argmin\<close> and \<^verbatim>\<open>np.argmax\<close> return the first position of the extreme
  value: the length of the longest prefix that avoids it. Every call of the source is on
  a non-empty array.
\<close>

definition argmin :: "real list \<Rightarrow> nat" where
  "argmin xs = length (takeWhile (\<lambda>x. x \<noteq> Min (set xs)) xs)"

definition argmax :: "real list \<Rightarrow> nat" where
  "argmax xs = length (takeWhile (\<lambda>x. x \<noteq> Max (set xs)) xs)"

section \<open>Pivot Selector: \<^verbatim>\<open>greedy_farthest_pivots\<close>\<close>

text \<open>
  The loop \<^verbatim>\<open>for _ in range(1, max_pivots)\<close>, counted by the number of iterations
  left. The state is the list \<^verbatim>\<open>pivots\<close> in selection order and the
  array \<^verbatim>\<open>nearest_sim\<close>. The global random generator is the stream \<open>rnd\<close> of its
  future draws: \<^verbatim>\<open>np.random.choice(remaining)\<close> takes the draw modulo the number of
  candidates, so every draw yields a candidate and every candidate is some draw.
\<close>

fun fps_loop :: "(nat \<Rightarrow> nat) \<Rightarrow> matrix \<Rightarrow> nat \<Rightarrow> nat list \<Rightarrow> real list \<Rightarrow> nat list" where
  "fps_loop rnd vecs 0 pivots nearest_sim = pivots"
| "fps_loop rnd vecs (Suc k) pivots nearest_sim =
     (let pick = argmin nearest_sim in
      if pick \<in> set pivots then
        (let remaining = filter (\<lambda>i. i \<notin> set pivots) [0..<length vecs] in
         if remaining = [] then pivots
         else
           (let pick' = remaining ! (rnd 0 mod length remaining);
                cand = matvec vecs (vecs ! pick')
            in fps_loop (\<lambda>i. rnd (Suc i)) vecs k (pivots @ [pick']) (map2 max nearest_sim cand)))
      else
        (let cand = matvec vecs (vecs ! pick)
         in fps_loop rnd vecs k (pivots @ [pick]) (map2 max nearest_sim cand)))"

text \<open>The list \<^verbatim>\<open>pivots\<close> when the loop is left, for a corpus with \<open>n > 0\<close>.\<close>

definition selected_pivots :: "(nat \<Rightarrow> nat) \<Rightarrow> matrix \<Rightarrow> int \<Rightarrow> nat list" where
  "selected_pivots rnd vecs max_pivots =
     (let n = length vecs;
          max_pivots' = min max_pivots (max 1 (int n));
          centroid = mean_axis0 vecs;
          sims = matvec vecs centroid;
          seed = argmin sims;
          nearest_sim = matvec vecs (vecs ! seed)
      in fps_loop rnd vecs (nat (max_pivots' - 1)) [seed] nearest_sim)"

definition greedy_farthest_pivots :: "(nat \<Rightarrow> nat) \<Rightarrow> matrix \<Rightarrow> int \<Rightarrow> nat list" where
  "greedy_farthest_pivots rnd vecs max_pivots =
     (if length vecs = 0 then []
      else sort (remdups (selected_pivots rnd vecs max_pivots)))"

section \<open>Assigner: \<^verbatim>\<open>assign_to_nearest_pivot\<close>\<close>

text \<open>
  \<^verbatim>\<open>vecs[pivots]\<close> raises \<^verbatim>\<open>IndexError\<close> for an index outside the matrix. The
  result is the pair of the arrays \<^verbatim>\<open>best\<close> and \<^verbatim>\<open>dist\<close>.
\<close>

definition assign_to_nearest_pivot :: "matrix \<Rightarrow> nat list \<Rightarrow> error + (nat list \<times> real list)" where
  "assign_to_nearest_pivot vecs pivots =
     (if length pivots = 0 then Inr ([], [])
      else if list_ex (\<lambda>p. length vecs \<le> p) pivots then Inl IndexError
      else
        (let P = map (\<lambda>p. vecs ! p) pivots;
             sims = matmul_T vecs P;
             best = map argmax sims;
             best_sim = map2 (\<lambda>row b. row ! b) sims best;
             dist = map (\<lambda>s. 1 - s) best_sim
         in Inr (best, dist)))"

section \<open>Band calculator: \<^verbatim>\<open>compute_bands_for_pivot\<close>\<close>

text \<open>
  \<^verbatim>\<open>np.quantile(a, q)\<close> with its default linear interpolation: on the sorted
  data, the virtual index \<open>q (n - 1)\<close> is split into the index below it and the
  fraction \<open>gamma\<close>, and the result lies between the two neighbouring order statistics.
  The library raises \<^verbatim>\<open>ValueError\<close> for a fraction outside \<open>[0, 1]\<close>.
\<close>

definition quantile :: "real list \<Rightarrow> real \<Rightarrow> real" where
  "quantile a q =
     (let arr = sort a;
          n = length arr;
          virtual_index = q * real (n - 1);
          previous_index = nat \<lfloor>virtual_index\<rfloor>;
          next_index = min (previous_index + 1) (n - 1);
          gamma = virtual_index - real previous_index
      in arr ! previous_index + (arr ! next_index - arr ! previous_index) * gamma)"

text \<open>
  The inner function \<^verbatim>\<open>band_of\<close>: the scan \<^verbatim>\<open>for b, q in enumerate(qs)\<close>
  returns at the first cut-point that is at least \<open>x\<close>, and \<^verbatim>\<open>len(qs)\<close> after it.
\<close>

fun band_scan :: "nat \<Rightarrow> nat \<Rightarrow> real list \<Rightarrow> real \<Rightarrow> nat" where
  "band_scan len b [] x = len"
| "band_scan len b (q # qs) x = (if x \<le> q then b else band_scan len (Suc b) qs x)"

definition band_of :: "real list \<Rightarrow> real \<Rightarrow> nat" where
  "band_of qs x = band_scan (length qs) 0 qs x"

definition compute_bands_for_pivot :: "real list \<Rightarrow> real list \<Rightarrow> error + nat list" where
  "compute_bands_for_pivot dists quantiles =
     (if length dists = 0 then Inr []
      else if list_ex (\<lambda>q. q < 0 \<or> 1 < q) quantiles then Inl ValueError
      else
        (let qs = map (quantile dists) quantiles
         in Inr (map (band_of qs) dists)))"

section \<open>Redundancy Estimator: \<^verbatim>\<open>knn_redundancy\<close>\<close>

text \<open>
  The exact inner-product index: \<^verbatim>\<open>idx.search(queries, k)\<close> returns, for each
  query, the \<open>k\<close> largest inner products with the indexed vectors in descending order
  (only the similarities are used by the caller, not the positions). The library asserts
  \<open>k > 0\<close> and raises \<^verbatim>\<open>AssertionError\<close> otherwise. The neighbour count \<open>k\<close> of
  \<^verbatim>\<open>knn_redundancy\<close> is a natural number.
\<close>

definition index_search :: "matrix \<Rightarrow> matrix \<Rightarrow> nat \<Rightarrow> error + real list list" where
  "index_search base queries k =
     (if k = 0 then Inl AssertionError
      else Inr (map (\<lambda>q. take k (rev (sort (matvec base q)))) queries))"

definition mean :: "real list \<Rightarrow> real" where
  "mean xs = sum_list xs / real (length xs)"

text \<open>
  The array \<^verbatim>\<open>sims\<close> has shape \<open>(n, k_eff)\<close>; its number of columns is kept
  beside the rows, since \<^verbatim>\<open>sims.shape[1]\<close> and \<^verbatim>\<open>sims.size\<close> are read. On the empty
  corpus \<open>k_eff\<close> is 0 and the search raises.
\<close>

definition knn_redundancy :: "matrix \<Rightarrow> nat \<Rightarrow> error + real list" where
  "knn_redundancy vecs k =
     (let n = length vecs;
          k_eff = min (k + 1) n
      in case index_search vecs vecs k_eff of
           Inl e \<Rightarrow> Inl e
         | Inr sims \<Rightarrow>
             (let cols = k_eff;
                  (sims, cols) = (if cols > 1 then (map (drop 1) sims, cols - 1) else (sims, cols))
              in if n * cols = 0 then Inr (replicate n 0)
                 else Inr (map mean sims)))"

section \<open>Scores: \<^verbatim>\<open>minmax_norm\<close>\<close>

definition minmax_norm :: "real list \<Rightarrow> real list" where
  "minmax_norm x =
     (if length x = 0 then x
      else
        (let lo = Min (set x); hi = Max (set x)
         in if hi - lo < 1 / 10 ^ 8 then replicate (length x) 0
            else map (\<lambda>v. (v - lo) / (hi - lo)) x))"

section \<open>The pipeline of \<^verbatim>\<open>process_file\<close>, from the embedded chunks on\<close>

text \<open>\<^verbatim>\<open>int(np.ceil(np.sqrt(n)))\<close>.\<close>

definition ceil_sqrt :: "nat \<Rightarrow> int" where
  "ceil_sqrt n = \<lceil>sqrt (real n)\<rceil>"

definition NUM_PIVOTS :: int where "NUM_PIVOTS = 12"
definition KNN :: nat where "KNN = 16"
definition BAND_QUANTILES :: "real list" where "BAND_QUANTILES = [1 / 4, 1 / 2, 3 / 4]"

text \<open>
  One output record per chunk; \<open>chunk_id\<close> and \<open>chunk_text\<close> are the keys
  \<^verbatim>\<open>"id"\<close> and \<^verbatim>\<open>"text"\<close> of the source's dictionary.
\<close>

record chunk_record =
  chunk_id :: nat
  chunk_text :: string
  pivot_id :: nat
  pivot_local_index :: nat
  pivot_text :: string
  band :: nat
  novelty :: real
  redundancy :: real
  energy :: real
  source :: string

text \<open>Boolean-mask indexing: the read \<^verbatim>\<open>a[mask]\<close> and the write \<^verbatim>\<open>a[mask] = vs\<close>.\<close>

definition select_masked :: "'a list \<Rightarrow> bool list \<Rightarrow> 'a list" where
  "select_masked a m = map fst (filter snd (zip a m))"

fun assign_masked :: "'a list \<Rightarrow> bool list \<Rightarrow> 'a list \<Rightarrow> 'a list" where
  "assign_masked (x # xs) (m # ms) vs =
     (if m then
        (case vs of
           v # vs' \<Rightarrow> v # assign_masked xs ms vs'
         | [] \<Rightarrow> x # assign_masked xs ms [])
      else x # assign_masked xs ms vs)"
| "assign_masked xs ms vs = xs"

text \<open>
  The loop \<^verbatim>\<open>for p_local, p in enumerate(pivots)\<close> that fills \<^verbatim>\<open>band_ids\<close>;
  its third argument is the list of the values of \<^verbatim>\<open>p_local\<close> still to come.
\<close>

fun band_loop :: "nat list \<Rightarrow> real list \<Rightarrow> nat list \<Rightarrow> nat list \<Rightarrow> error + nat list" where
  "band_loop assign_idx novelty_dist [] band_ids = Inr band_ids"
| "band_loop assign_idx novelty_dist (p_local # rest) band_ids =
     (let mask = map (\<lambda>a. a = p_local) assign_idx;
          pdists = select_masked novelty_dist mask
      in case compute_bands_for_pivot pdists BAND_QUANTILES of
           Inl e \<Rightarrow> Inl e
         | Inr pbands \<Rightarrow> band_loop assign_idx novelty_dist rest (assign_masked band_ids mask pbands))"

text \<open>
  What a run computes and writes: the pivot list, the intermediate arrays, the list
  \<^verbatim>\<open>records\<close>, the sorted data frame \<^verbatim>\<open>df\<close>, and the three exports (the lines of
  \<^verbatim>\<open>structured_dataset.jsonl\<close> in the order written, the entries of
  \<^verbatim>\<open>pivots.json\<close>, the rows of \<^verbatim>\<open>train.csv\<close>).
\<close>

record run_output =
  out_pivots :: "nat list"
  out_assign_idx :: "nat list"
  out_novelty_dist :: "real list"
  out_redundancy_sim :: "real list"
  out_novelty_norm :: "real list"
  out_redundancy_norm :: "real list"
  out_band_ids :: "nat list"
  out_records :: "chunk_record list"
  out_df :: "chunk_record list"
  out_jsonl_lines :: "chunk_record list"
  out_pivots_json :: "(nat \<times> string) list"
  out_train_csv :: "(string \<times> nat) list"

text \<open>
  \<^verbatim>\<open>DataFrame.sort_values(["pivot_local_index", "band", "energy"],
  ascending=[True, True, False])\<close>: a stable sort on the lexicographic key of the three
  columns, the descending column negated.
\<close>

definition record_key :: "chunk_record \<Rightarrow> nat \<times> nat \<times> real" where
  "record_key r = (pivot_local_index r, band r, - energy r)"

definition sort_values :: "chunk_record list \<Rightarrow> chunk_record list" where
  "sort_values rs = sort_key record_key rs"

text \<open>The body of the loop \<^verbatim>\<open>for i, text in enumerate(chunks)\<close>: the record of chunk \<open>i\<close>.\<close>

definition make_record ::
  "string \<Rightarrow> string list \<Rightarrow> nat list \<Rightarrow> nat list \<Rightarrow> nat list \<Rightarrow> real list \<Rightarrow> real list \<Rightarrow> real list
     \<Rightarrow> nat \<Rightarrow> chunk_record" where
  "make_record file_name chunks pivots assign_idx band_ids novelty_norm redundancy_norm energies i =
     (let pid_local = assign_idx ! i;
          pid_global = pivots ! pid_local
      in \<lparr> chunk_id = i,
           chunk_text = chunks ! i,
           pivot_id = pid_global,
           pivot_local_index = pid_local,
           pivot_text = chunks ! pid_global,
           band = band_ids ! i,
           novelty = novelty_norm ! i,
           redundancy = redundancy_norm ! i,
           energy = energies ! i,
           source = file_name \<rparr>)"

text \<open>
  The run takes the name of the source file and the chunks with their embeddings (the
  Embedder returns one vector per chunk text, in order): \<open>chunks\<close> and \<open>vecs\<close> are
  the two columns. Reading and chunking the document, the dataset card and the plot are
  not modelled. The chunker can drop every chunk; on that empty corpus the run raises in
  \<^verbatim>\<open>knn_redundancy\<close>, after the Pivot Selector and the Assigner returned empty results.
\<close>

definition process_file :: "(nat \<Rightarrow> nat) \<Rightarrow> string \<Rightarrow> (string \<times> vec) list \<Rightarrow> error + run_output" where
  "process_file rnd file_name embedded =
     (let chunks = map fst embedded;
          vecs = map snd embedded;
          n = length vecs;
          pivots = greedy_farthest_pivots rnd vecs (min NUM_PIVOTS (max 1 (ceil_sqrt n)))
      in case assign_to_nearest_pivot vecs pivots of
           Inl e \<Rightarrow> Inl e
         | Inr (assign_idx, novelty_dist) \<Rightarrow>
             (case knn_redundancy vecs KNN of
                Inl e \<Rightarrow> Inl e
              | Inr redundancy_sim \<Rightarrow>
                  (let novelty_norm = minmax_norm novelty_dist;
                       redundancy_norm = minmax_norm redundancy_sim;
                       energy = map2 (\<lambda>a b. a * (1 - b)) novelty_norm redundancy_norm
                   in case band_loop assign_idx novelty_dist [0..<length pivots] (replicate n 0) of
                        Inl e \<Rightarrow> Inl e
                      | Inr band_ids \<Rightarrow>
                          (let pivot_texts = map (\<lambda>i. chunks ! i) pivots;
                               records = map (make_record file_name chunks pivots assign_idx
                                                band_ids novelty_norm redundancy_norm energy)
                                           [0..<length chunks];
                               df = sort_values records
                           in Inr \<lparr> out_pivots = pivots,
                                    out_assign_idx = assign_idx,
                                    out_novelty_dist = novelty_dist,
                                    out_redundancy_sim = redundancy_sim,
                                    out_novelty_norm = novelty_norm,
                                    out_redundancy_norm = redundancy_norm,
                                    out_band_ids = band_ids,
                                    out_records = records,
                                    out_df = df,
                                    out_jsonl_lines = records,
                                    out_pivots_json = zip pivots pivot_texts,
                                    out_train_csv =
                                      map (\<lambda>r. (chunk_text r, pivot_local_index r)) df \<rparr>))))"

section \<open>Notions used to state the properties\<close>

text \<open>
  The cut-points of the group of pivot \<open>p\<close>: the quantiles of the residual distances of
  the chunks assigned to \<open>p\<close>, as the banding loop computes them.
\<close>

definition group_cuts :: "nat list \<Rightarrow> real list \<Rightarrow> nat \<Rightarrow> real list" where
  "group_cuts assign_idx novelty_dist p =
     map (quantile (select_masked novelty_dist (map (\<lambda>a. a = p) assign_idx))) BAND_QUANTILES"

section \<open>Auxiliary facts\<close>

subsection \<open>First positions\<close>

lemma takeWhile_prefix_holds: "j < length (takeWhile P xs) \<Longrightarrow> P (xs ! j)"
  by (metis nth_mem set_takeWhileD takeWhile_nth)

lemma takeWhile_stops: "\<exists>x\<in>set xs. \<not> P x \<Longrightarrow>
  length (takeWhile P xs) < length xs \<and> \<not> P (xs ! length (takeWhile P xs))"
  by (induction xs) auto

lemma ceil_sqrt_unique:
  assumes up: "n \<le> k * k" and low: "\<And>j. j < k \<Longrightarrow> j * j < n"
  shows "ceil_sqrt n = int k"
proof -
  have "real n \<le> real (k * k)" using up by (simp only: of_nat_le_iff)
  then have "real n \<le> (real k)\<^sup>2" by (simp add: power2_eq_square)
  then have le: "sqrt (real n) \<le> real k" by (simp add: real_le_lsqrt)
  have gt: "real k - 1 < sqrt (real n)"
  proof (cases k)
    case 0
    have "0 \<le> sqrt (real n)" by simp
    then have "- 1 < sqrt (real n)" by linarith
    with 0 show ?thesis by simp
  next
    case (Suc j)
    then have "j * j < n" using low by simp
    then have "real (j * j) < real n" by (simp only: of_nat_less_iff)
    then have "(real j)\<^sup>2 < real n" by (simp add: power2_eq_square)
    then have "real j < sqrt (real n)" by (simp add: real_less_rsqrt)
    then show ?thesis using Suc by simp
  qed
  show ?thesis unfolding ceil_sqrt_def
    by (rule ceiling_unique) (use le gt in simp_all)
qed

lemma ceil_sqrt_code [code]:
  "ceil_sqrt n = int (length (takeWhile (\<lambda>k. k * k < n) [0..<Suc n]))"
proof (rule ceil_sqrt_unique)
  let ?P = "\<lambda>k. k * k < n"
  let ?xs = "[0..<Suc n]"
  have ex: "\<exists>x\<in>set ?xs. \<not> ?P x" by (rule bexI[of _ n]) auto
  have len: "length (takeWhile ?P ?xs) < length ?xs"
    and stop: "\<not> ?P (?xs ! length (takeWhile ?P ?xs))"
    using takeWhile_stops[OF ex] by blast+
  from stop len show "n \<le> length (takeWhile ?P ?xs) * length (takeWhile ?P ?xs)"
    by (simp add: not_less del: upt_Suc)
  fix j assume j: "j < length (takeWhile ?P ?xs)"
  then have "?P (?xs ! j)" by (rule takeWhile_prefix_holds)
  moreover have "j < length ?xs" using j len by simp
  ultimately show "j * j < n" by (simp del: upt_Suc)
qed

lemma ceil_sqrt_bounds: "0 < n \<Longrightarrow> 1 \<le> ceil_sqrt n \<and> ceil_sqrt n \<le> int n"
proof -
  assume n: "0 < n"
  have "sqrt (real n) \<le> real n"
  proof -
    have "real n \<le> real n * real n" using n by (simp add: mult_le_cancel_left1) 
    then have "sqrt (real n) \<le> sqrt (real n * real n)" by (simp only: real_sqrt_le_iff)
    then show ?thesis by simp
  qed
  then have "ceil_sqrt n \<le> int n" unfolding ceil_sqrt_def by (simp add: ceiling_le_iff)
  moreover have "0 < sqrt (real n)" using n by simp
  then have "1 \<le> ceil_sqrt n" unfolding ceil_sqrt_def by simp 
  ultimately show ?thesis by simp
qed

lemma argmax_less: "xs \<noteq> [] \<Longrightarrow> argmax xs < length xs"
  using takeWhile_stops[of xs "\<lambda>x. x \<noteq> Max (set xs)"] Max_in[of "set xs"]
  by (auto simp: argmax_def)

lemma argmax_nth: "xs \<noteq> [] \<Longrightarrow> xs ! argmax xs = Max (set xs)"
  using takeWhile_stops[of xs "\<lambda>x. x \<noteq> Max (set xs)"] Max_in[of "set xs"]
  by (auto simp: argmax_def)

lemma argmax_first: "j < argmax xs \<Longrightarrow> xs ! j < xs ! argmax xs"
proof -
  assume j: "j < argmax xs"
  then have ne: "xs ! j \<noteq> Max (set xs)"
    unfolding argmax_def by (rule takeWhile_prefix_holds)
  have "argmax xs \<le> length xs" unfolding argmax_def by (rule length_takeWhile_le)
  with j have jl: "j < length xs" by simp
  then have "xs \<noteq> []" by auto
  then have "xs ! argmax xs = Max (set xs)" by (rule argmax_nth)
  moreover have "xs ! j \<le> Max (set xs)" using jl by simp
  ultimately show ?thesis using ne by simp
qed

subsection \<open>The selection loop\<close>

lemma argmin_less: "xs \<noteq> [] \<Longrightarrow> argmin xs < length xs"
  using takeWhile_stops[of xs "\<lambda>x. x \<noteq> Min (set xs)"] Min_in[of "set xs"]
  by (auto simp: argmin_def)

lemma remaining_empty_full:
  assumes "distinct pivots" "set pivots \<subseteq> {..<n}" "filter (\<lambda>i. i \<notin> set pivots) [0..<n] = []"
  shows "length pivots = n"
proof -
  have "{..<n} \<subseteq> set pivots" using assms(3) by (auto simp: filter_empty_conv)
  with assms(2) have "set pivots = {..<n}" by auto
  then have "card (set pivots) = n" by simp
  then show ?thesis using assms(1) by (simp add: distinct_card)
qed

lemma distinct_bounded_length:
  assumes "distinct pivots" "set pivots \<subseteq> {..<n}"
  shows "length pivots \<le> n"
proof -
  have "card (set pivots) \<le> card {..<n}" using assms(2) by (intro card_mono) auto
  then show ?thesis using assms(1) by (simp add: distinct_card)
qed

lemma fps_loop_inv:
  assumes "distinct pivots" "set pivots \<subseteq> {..<length vecs}"
    "length nearest_sim = length vecs" "vecs \<noteq> []"
  shows "distinct (fps_loop rnd vecs k pivots nearest_sim)
       \<and> set (fps_loop rnd vecs k pivots nearest_sim) \<subseteq> {..<length vecs}
       \<and> length (fps_loop rnd vecs k pivots nearest_sim) = min (length pivots + k) (length vecs)
       \<and> take (length pivots) (fps_loop rnd vecs k pivots nearest_sim) = pivots"
  using assms
proof (induction k arbitrary: rnd pivots nearest_sim)
  case 0
  then show ?case using distinct_bounded_length[of pivots "length vecs"] by simp
next
  case (Suc k)
  let ?n = "length vecs"
  let ?pick = "argmin nearest_sim"
  let ?rem = "filter (\<lambda>i. i \<notin> set pivots) [0..<?n]"
  have pl: "length pivots \<le> ?n" using distinct_bounded_length Suc.prems(1,2) by blast
  have "nearest_sim \<noteq> []" using Suc.prems(3,4) by auto
  then have pick: "?pick < ?n" using argmin_less[of nearest_sim] Suc.prems(3) by simp
  show ?case
  proof (cases "?pick \<in> set pivots")
    case False
    let ?ps = "pivots @ [?pick]"
    let ?ns = "map2 max nearest_sim (matvec vecs (vecs ! ?pick))"
    have d: "distinct ?ps" using False Suc.prems(1) by simp
    have s: "set ?ps \<subseteq> {..<?n}" using pick Suc.prems(2) by simp
    have l: "length ?ns = ?n" using Suc.prems(3) by (simp add: matvec_def)
    have eq: "fps_loop rnd vecs (Suc k) pivots nearest_sim = fps_loop rnd vecs k ?ps ?ns"
      using False by (simp add: Let_def)
    have tk: "take (length pivots) (fps_loop rnd vecs k ?ps ?ns) = pivots"
    proof -
      have "take (length ?ps) (fps_loop rnd vecs k ?ps ?ns) = ?ps"
        using Suc.IH[OF d s l Suc.prems(4)] by blast
      then have "take (length pivots) (take (length ?ps) (fps_loop rnd vecs k ?ps ?ns)) = take (length pivots) ?ps"
        by simp
      then show ?thesis by (simp add: min_def)
    qed
    show ?thesis unfolding eq using Suc.IH[OF d s l Suc.prems(4), of rnd] tk by simp
  next
    case True
    show ?thesis
    proof (cases "?rem = []")
      case e: True
      have "length pivots = ?n" using remaining_empty_full[OF Suc.prems(1,2) e] .
      moreover have "fps_loop rnd vecs (Suc k) pivots nearest_sim = pivots"
        using True e by (simp add: Let_def)
      ultimately show ?thesis using Suc.prems by simp
    next
      case ne: False
      let ?pick' = "?rem ! (rnd 0 mod length ?rem)"
      let ?ps = "pivots @ [?pick']"
      let ?ns = "map2 max nearest_sim (matvec vecs (vecs ! ?pick'))"
      have "?pick' \<in> set ?rem" using ne by (intro nth_mem) simp
      then have p': "?pick' < ?n" "?pick' \<notin> set pivots" by auto
      have d: "distinct ?ps" using p' Suc.prems(1) by simp
      have s: "set ?ps \<subseteq> {..<?n}" using p' Suc.prems(2) by simp
      have l: "length ?ns = ?n" using Suc.prems(3) by (simp add: matvec_def)
      have eq: "fps_loop rnd vecs (Suc k) pivots nearest_sim = fps_loop (\<lambda>i. rnd (Suc i)) vecs k ?ps ?ns"
        using True ne by (simp add: Let_def)
      have tk: "take (length pivots) (fps_loop (\<lambda>i. rnd (Suc i)) vecs k ?ps ?ns) = pivots"
      proof -
        have "take (length ?ps) (fps_loop (\<lambda>i. rnd (Suc i)) vecs k ?ps ?ns) = ?ps"
          using Suc.IH[OF d s l Suc.prems(4)] by blast
        then have "take (length pivots) (take (length ?ps) (fps_loop (\<lambda>i. rnd (Suc i)) vecs k ?ps ?ns)) = take (length pivots) ?ps"
          by simp
        then show ?thesis by (simp add: min_def)
      qed
      show ?thesis unfolding eq using Suc.IH[OF d s l Suc.prems(4), of "\<lambda>i. rnd (Suc i)"] tk by simp
    qed
  qed
qed

lemma selected_pivots_props:
  assumes "vecs \<noteq> []"
  shows "distinct (selected_pivots rnd vecs mp)
       \<and> set (selected_pivots rnd vecs mp) \<subseteq> {..<length vecs}
       \<and> int (length (selected_pivots rnd vecs mp)) = max 1 (min mp (int (length vecs)))"
proof -
  let ?seed = "argmin (matvec vecs (mean_axis0 vecs))"
  have seed: "?seed < length vecs"
    using argmin_less[of "matvec vecs (mean_axis0 vecs)"] assms by (simp add: matvec_def)
  have inv: "distinct [?seed]" "set [?seed] \<subseteq> {..<length vecs}"
    "length (matvec vecs (vecs ! ?seed)) = length vecs"
    using seed by (simp_all add: matvec_def)
  have n: "0 < length vecs" using assms by simp
  define k where "k = nat (min mp (max 1 (int (length vecs))) - 1)"
  have sp: "selected_pivots rnd vecs mp
      = fps_loop rnd vecs k [?seed] (matvec vecs (vecs ! ?seed))"
    by (simp add: selected_pivots_def Let_def k_def)
  define N where "N = int (length vecs)"
  have "Suc 0 \<le> length vecs" using assms by (cases vecs) simp_all
  then have N1: "1 \<le> N" by (simp add: N_def)
  have ik: "int k = max 0 (min mp N - 1)" using N1 by (simp add: k_def N_def max_def)
  have "int (min (length [?seed] + k) (length vecs)) = min (1 + int k) N"
    by (simp add: N_def)
  also have "\<dots> = max 1 (min mp N)" using N1 unfolding ik by arith
  finally have "int (min (length [?seed] + k) (length vecs)) = max 1 (min mp (int (length vecs)))"
    by (simp add: N_def)
  then show ?thesis
    unfolding sp using fps_loop_inv[OF inv assms, of rnd k] by simp
qed

lemma greedy_props:
  assumes "vecs \<noteq> []"
  shows "distinct (greedy_farthest_pivots rnd vecs mp)"
    and "sorted (greedy_farthest_pivots rnd vecs mp)"
    and "set (greedy_farthest_pivots rnd vecs mp) \<subseteq> {..<length vecs}"
    and "int (length (greedy_farthest_pivots rnd vecs mp)) = max 1 (min mp (int (length vecs)))"
    and "greedy_farthest_pivots rnd vecs mp = sort (selected_pivots rnd vecs mp)"
proof -
  note sp = selected_pivots_props[OF assms, of rnd mp]
  have rd: "remdups (selected_pivots rnd vecs mp) = selected_pivots rnd vecs mp"
    using sp by (simp add: distinct_remdups_id)
  show g: "greedy_farthest_pivots rnd vecs mp = sort (selected_pivots rnd vecs mp)"
    using assms by (simp add: greedy_farthest_pivots_def rd)
  show "distinct (greedy_farthest_pivots rnd vecs mp)" unfolding g using sp by simp
  show "sorted (greedy_farthest_pivots rnd vecs mp)" unfolding g by simp
  show "set (greedy_farthest_pivots rnd vecs mp) \<subseteq> {..<length vecs}" unfolding g using sp by simp
  show "int (length (greedy_farthest_pivots rnd vecs mp)) = max 1 (min mp (int (length vecs)))"
    unfolding g using sp by simp
qed

subsection \<open>The Assigner\<close>

lemma assign_spec:
  assumes "pivots \<noteq> []" and "\<forall>p\<in>set pivots. p < length vecs"
  shows "\<exists>best dist. assign_to_nearest_pivot vecs pivots = Inr (best, dist)
      \<and> length best = length vecs \<and> length dist = length vecs
      \<and> (\<forall>i<length vecs.
            best ! i < length pivots
          \<and> (\<forall>j<length pivots.
                dot (vecs ! i) (vecs ! (pivots ! j)) \<le> dot (vecs ! i) (vecs ! (pivots ! (best ! i))))
          \<and> (\<forall>j<best ! i.
                dot (vecs ! i) (vecs ! (pivots ! j)) < dot (vecs ! i) (vecs ! (pivots ! (best ! i))))
          \<and> dist ! i = 1 - dot (vecs ! i) (vecs ! (pivots ! (best ! i))))"
proof -
  define P where "P = map (\<lambda>p. vecs ! p) pivots"
  define row where "row = (\<lambda>i. map (\<lambda>b. dot (vecs ! i) b) P)"
  define best where "best = map argmax (matmul_T vecs P)"
  define dist where "dist = map (\<lambda>s. 1 - s) (map2 (\<lambda>r b. r ! b) (matmul_T vecs P) best)"
  have noerr: "\<not> list_ex (\<lambda>p. length vecs \<le> p) pivots"
    using assms(2) by (auto simp: list_ex_iff)
  have res: "assign_to_nearest_pivot vecs pivots = Inr (best, dist)"
    using assms(1) noerr
    by (simp add: assign_to_nearest_pivot_def Let_def best_def dist_def P_def)
  have lb: "length best = length vecs" by (simp add: best_def matmul_T_def)
  have ld: "length dist = length vecs" by (simp add: dist_def best_def matmul_T_def)
  have rowne: "row i \<noteq> []" for i using assms(1) by (simp add: row_def P_def)
  have lrow: "length (row i) = length pivots" for i by (simp add: row_def P_def)
  have rownth: "row i ! j = dot (vecs ! i) (vecs ! (pivots ! j))" if "j < length pivots" for i j
    using that by (simp add: row_def P_def)
  have bi: "best ! i = argmax (row i)" if "i < length vecs" for i
    using that by (simp add: best_def matmul_T_def row_def)
  have di: "dist ! i = 1 - row i ! argmax (row i)" if "i < length vecs" for i
    using that by (simp add: dist_def best_def matmul_T_def row_def)
  have amax: "argmax (row i) < length pivots" for i
    using argmax_less[OF rowne[of i]] by (simp add: lrow)
  have "best ! i < length pivots
          \<and> (\<forall>j<length pivots.
                dot (vecs ! i) (vecs ! (pivots ! j)) \<le> dot (vecs ! i) (vecs ! (pivots ! (best ! i))))
          \<and> (\<forall>j<best ! i.
                dot (vecs ! i) (vecs ! (pivots ! j)) < dot (vecs ! i) (vecs ! (pivots ! (best ! i))))
          \<and> dist ! i = 1 - dot (vecs ! i) (vecs ! (pivots ! (best ! i)))"
    if i: "i < length vecs" for i
  proof -
    have 1: "best ! i < length pivots" using bi[OF i] amax by simp
    have 2: "dot (vecs ! i) (vecs ! (pivots ! j)) \<le> dot (vecs ! i) (vecs ! (pivots ! (best ! i)))"
      if "j < length pivots" for j
    proof -
      have "row i ! j \<le> Max (set (row i))" using that by (simp add: lrow)
      also have "\<dots> = row i ! argmax (row i)" using argmax_nth[OF rowne[of i]] by simp
      finally show ?thesis using that rownth amax bi[OF i] by simp
    qed
    have 3: "dot (vecs ! i) (vecs ! (pivots ! j)) < dot (vecs ! i) (vecs ! (pivots ! (best ! i)))"
      if "j < best ! i" for j
    proof -
      have "j < argmax (row i)" using that bi[OF i] by simp
      then have "row i ! j < row i ! argmax (row i)" by (rule argmax_first)
      moreover have "j < length pivots" using that 1 by simp
      ultimately show ?thesis using rownth amax bi[OF i] by simp
    qed
    have 4: "dist ! i = 1 - dot (vecs ! i) (vecs ! (pivots ! (best ! i)))"
      using di[OF i] bi[OF i] rownth amax by simp
    show ?thesis using 1 2 3 4 by blast
  qed
  then show ?thesis using res lb ld by blast
qed

subsection \<open>The banding loop\<close>

lemma compute_bands_default:
  "compute_bands_for_pivot dists BAND_QUANTILES
     = Inr (map (band_of (map (quantile dists) BAND_QUANTILES)) dists)"
  by (simp add: compute_bands_for_pivot_def BAND_QUANTILES_def)

lemma assign_masked_map_select:
  "length xs = length ms \<Longrightarrow> length ms = length d \<Longrightarrow>
   assign_masked xs ms (map f (select_masked d ms))
     = map (\<lambda>(x, m, v). if m then f v else x) (zip xs (zip ms d))"
proof (induction xs ms d rule: list_induct3)
  case Nil
  then show ?case by (simp add: select_masked_def)
next
  case (Cons x xs m ms v d)
  then show ?case by (simp add: select_masked_def)
qed

lemma band_loop_result:
  assumes "length band_ids = length assign_idx" "length novelty_dist = length assign_idx"
  shows "\<exists>bs. band_loop assign_idx novelty_dist ps band_ids = Inr bs
      \<and> length bs = length assign_idx
      \<and> (\<forall>i<length assign_idx. bs ! i =
            (if assign_idx ! i \<in> set ps
             then band_of (group_cuts assign_idx novelty_dist (assign_idx ! i)) (novelty_dist ! i)
             else band_ids ! i))"
  using assms
proof (induction ps arbitrary: band_ids)
  case Nil
  then show ?case by simp
next
  case (Cons p ps)
  let ?mask = "map (\<lambda>a. a = p) assign_idx"
  let ?f = "band_of (group_cuts assign_idx novelty_dist p)"
  let ?b = "assign_masked band_ids ?mask (map ?f (select_masked novelty_dist ?mask))"
  have b: "?b = map (\<lambda>(x, m, v). if m then ?f v else x) (zip band_ids (zip ?mask novelty_dist))"
    using Cons.prems by (intro assign_masked_map_select) simp_all
  have lb: "length ?b = length assign_idx" unfolding b using Cons.prems by simp
  have nb: "?b ! i = (if assign_idx ! i = p then ?f (novelty_dist ! i) else band_ids ! i)"
    if "i < length assign_idx" for i
    unfolding b using that Cons.prems by simp
  have step: "band_loop assign_idx novelty_dist (p # ps) band_ids
     = band_loop assign_idx novelty_dist ps ?b"
    by (simp add: compute_bands_default group_cuts_def Let_def)
  obtain bs where bs: "band_loop assign_idx novelty_dist ps ?b = Inr bs"
      "length bs = length assign_idx"
      "\<forall>i<length assign_idx. bs ! i =
            (if assign_idx ! i \<in> set ps
             then band_of (group_cuts assign_idx novelty_dist (assign_idx ! i)) (novelty_dist ! i)
             else ?b ! i)"
    using Cons.IH[OF lb Cons.prems(2)] by blast
  have "bs ! i = (if assign_idx ! i \<in> set (p # ps)
             then band_of (group_cuts assign_idx novelty_dist (assign_idx ! i)) (novelty_dist ! i)
             else band_ids ! i)" if i: "i < length assign_idx" for i
    using bs(3) i nb[OF i] by auto
  then show ?case unfolding step using bs(1,2) by blast
qed

subsection \<open>The run as a whole\<close>

lemma knn_redundancy_empty: "knn_redundancy [] k = Inl AssertionError"
  by (simp add: knn_redundancy_def index_search_def)

lemma knn_redundancy_Inr:
  assumes "vecs \<noteq> []"
  shows "\<exists>rs. knn_redundancy vecs k = Inr rs \<and> length rs = length vecs"
proof -
  have "0 < length vecs" using assms by simp
  then have "min (k + 1) (length vecs) \<noteq> 0" by simp
  then show ?thesis
    by (simp add: knn_redundancy_def Let_def index_search_def split: prod.splits if_splits)
qed

lemma process_file_empty: "process_file rnd file_name [] = Inl AssertionError"
  by (simp add: process_file_def greedy_farthest_pivots_def assign_to_nearest_pivot_def
      knn_redundancy_empty)

lemma minmax_norm_length: "length (minmax_norm x) = length x"
  by (simp add: minmax_norm_def Let_def)

lemma process_file_Inr:
  fixes rnd file_name embedded
  defines "vecs \<equiv> map snd embedded"
  defines "chunks \<equiv> map fst embedded"
  assumes ne: "embedded \<noteq> []"
  shows "\<exists>out. process_file rnd file_name embedded = Inr out
     \<and> out_pivots out = greedy_farthest_pivots rnd vecs
          (min NUM_PIVOTS (max 1 (ceil_sqrt (length embedded))))
     \<and> assign_to_nearest_pivot vecs (out_pivots out)
          = Inr (out_assign_idx out, out_novelty_dist out)
     \<and> length (out_assign_idx out) = length embedded
     \<and> length (out_novelty_dist out) = length embedded
     \<and> knn_redundancy vecs KNN = Inr (out_redundancy_sim out)
     \<and> length (out_redundancy_sim out) = length embedded
     \<and> out_novelty_norm out = minmax_norm (out_novelty_dist out)
     \<and> out_redundancy_norm out = minmax_norm (out_redundancy_sim out)
     \<and> band_loop (out_assign_idx out) (out_novelty_dist out) [0..<length (out_pivots out)]
          (replicate (length embedded) 0) = Inr (out_band_ids out)
     \<and> out_records out = map (make_record file_name chunks (out_pivots out) (out_assign_idx out)
          (out_band_ids out) (out_novelty_norm out) (out_redundancy_norm out)
          (map2 (\<lambda>a b. a * (1 - b)) (out_novelty_norm out) (out_redundancy_norm out)))
          [0..<length embedded]
     \<and> out_df out = sort_values (out_records out)
     \<and> out_jsonl_lines out = out_records out
     \<and> out_pivots_json out = zip (out_pivots out) (map (\<lambda>i. chunks ! i) (out_pivots out))
     \<and> out_train_csv out = map (\<lambda>r. (chunk_text r, pivot_local_index r)) (out_df out)"
proof -
  define ps where "ps = greedy_farthest_pivots rnd vecs
          (min NUM_PIVOTS (max 1 (ceil_sqrt (length embedded))))"
  have vne: "vecs \<noteq> []" using ne by (simp add: vecs_def)
  have "int (length ps) = max 1 (min (min NUM_PIVOTS (max 1 (ceil_sqrt (length embedded)))) (int (length vecs)))"
    unfolding ps_def by (rule greedy_props(4)[OF vne])
  then have pne: "ps \<noteq> []" by auto
  have valid: "\<forall>p\<in>set ps. p < length vecs"
    using greedy_props(3)[OF vne, of rnd] unfolding ps_def by auto
  obtain a d where ad: "assign_to_nearest_pivot vecs ps = Inr (a, d)"
    "length a = length embedded" "length d = length embedded"
    using assign_spec[OF pne valid] by (auto simp: vecs_def)
  obtain rs where rs: "knn_redundancy vecs KNN = Inr rs" "length rs = length embedded"
    using knn_redundancy_Inr[OF vne, of KNN] by (auto simp: vecs_def)
  obtain bs where bs: "band_loop a d [0..<length ps] (replicate (length embedded) 0) = Inr bs"
    using band_loop_result[of "replicate (length embedded) 0" a d "[0..<length ps]"] ad(2,3)
    by auto
  show ?thesis
    using ad bs rs unfolding ps_def vecs_def chunks_def
    by (simp add: process_file_def Let_def)
qed

lemma process_file_nonempty:
  "process_file rnd file_name embedded = Inr out \<Longrightarrow> embedded \<noteq> []"
  using process_file_empty[of rnd file_name] by auto

lemma pipeline_count:
  assumes "embedded \<noteq> []"
  shows "\<exists>out. process_file rnd file_name embedded = Inr out
         \<and> int (length (out_pivots out)) = min NUM_PIVOTS (ceil_sqrt (length embedded))"
proof -
  obtain out where out: "process_file rnd file_name embedded = Inr out"
    "out_pivots out = greedy_farthest_pivots rnd (map snd embedded)
          (min NUM_PIVOTS (max 1 (ceil_sqrt (length embedded))))"
    using process_file_Inr[OF assms, of rnd file_name] by blast
  have ne: "map snd embedded \<noteq> []" using assms by simp
  have n: "0 < length embedded" using assms by simp
  have "int (length (out_pivots out))
      = max 1 (min (min NUM_PIVOTS (max 1 (ceil_sqrt (length embedded)))) (int (length embedded)))"
    unfolding out(2) using greedy_props(4)[OF ne, of rnd] by simp
  also have "\<dots> = min NUM_PIVOTS (ceil_sqrt (length embedded))"
    using ceil_sqrt_bounds[OF n] unfolding NUM_PIVOTS_def by linarith
  finally show ?thesis using out(1) by blast
qed

subsection \<open>Redundancy and scores\<close>

lemma minmax_norm_range:
  assumes "y \<in> set (minmax_norm x)"
  shows "0 \<le> y \<and> y \<le> 1"
proof (cases "x = []")
  case True
  then show ?thesis using assms by (simp add: minmax_norm_def)
next
  case False
  let ?lo = "Min (set x)" and ?hi = "Max (set x)"
  show ?thesis
  proof (cases "?hi - ?lo < 1 / 10 ^ 8")
    case True
    then have "minmax_norm x = replicate (length x) 0" using False by (simp add: minmax_norm_def)
    then show ?thesis using assms by auto
  next
    case big: False
    then have pos: "0 < ?hi - ?lo" by (smt (verit) zero_less_divide_1_iff zero_less_numeral zero_less_power)
    have "minmax_norm x = map (\<lambda>v. (v - ?lo) / (?hi - ?lo)) x"
      using False big by (simp add: minmax_norm_def Let_def)
    then obtain v where v: "v \<in> set x" "y = (v - ?lo) / (?hi - ?lo)" using assms by auto
    have "?lo \<le> v" "v \<le> ?hi" using v(1) by simp_all
    then show ?thesis using pos v(2) by simp
  qed
qed

lemma minmax_norm_degenerate:
  "x \<noteq> [] \<Longrightarrow> Max (set x) - Min (set x) < 1 / 10 ^ 8 \<Longrightarrow> minmax_norm x = replicate (length x) 0"
  by (simp add: minmax_norm_def)

lemma unit_interval_product:
  fixes a b :: real
  assumes "0 \<le> a" "a \<le> 1" "0 \<le> b" "b \<le> 1"
  shows "0 \<le> a * (1 - b) \<and> a * (1 - b) \<le> 1"
proof -
  have "0 \<le> 1 - b" "1 - b \<le> 1" using assms by simp_all
  then show ?thesis using assms(1,2) by (simp add: mult_le_one)
qed

lemma pipeline_scores:
  assumes ne: "embedded \<noteq> []"
  shows "\<exists>out. process_file rnd file_name embedded = Inr out
     \<and> length (out_records out) = length embedded
     \<and> (\<forall>i<length embedded.
           chunk_id (out_records out ! i) = i
         \<and> 0 \<le> novelty (out_records out ! i) \<and> novelty (out_records out ! i) \<le> 1
         \<and> 0 \<le> redundancy (out_records out ! i) \<and> redundancy (out_records out ! i) \<le> 1
         \<and> energy (out_records out ! i)
              = novelty (out_records out ! i) * (1 - redundancy (out_records out ! i))
         \<and> 0 \<le> energy (out_records out ! i) \<and> energy (out_records out ! i) \<le> 1
         \<and> (Max (set (out_novelty_dist out)) - Min (set (out_novelty_dist out)) < 1 / 10 ^ 8
              \<longrightarrow> novelty (out_records out ! i) = 0)
         \<and> (Max (set (out_redundancy_sim out)) - Min (set (out_redundancy_sim out)) < 1 / 10 ^ 8
              \<longrightarrow> redundancy (out_records out ! i) = 0))"
proof -
  obtain out where run: "process_file rnd file_name embedded = Inr out"
    and ld: "length (out_novelty_dist out) = length embedded"
    and ls: "length (out_redundancy_sim out) = length embedded"
    and nn: "out_novelty_norm out = minmax_norm (out_novelty_dist out)"
    and rn: "out_redundancy_norm out = minmax_norm (out_redundancy_sim out)"
    and recs: "out_records out = map (make_record file_name (map fst embedded) (out_pivots out)
          (out_assign_idx out) (out_band_ids out) (out_novelty_norm out) (out_redundancy_norm out)
          (map2 (\<lambda>a b. a * (1 - b)) (out_novelty_norm out) (out_redundancy_norm out)))
          [0..<length embedded]"
    using process_file_Inr[OF ne, of rnd file_name] by blast
  have ln: "length (out_novelty_norm out) = length embedded"
    by (simp add: nn minmax_norm_length ld)
  have lr: "length (out_redundancy_norm out) = length embedded"
    by (simp add: rn minmax_norm_length ls)
  have ne1: "out_novelty_dist out \<noteq> []" using ne ld by auto
  have ne2: "out_redundancy_sim out \<noteq> []" using ne ls by auto
  have len: "length (out_records out) = length embedded" by (simp add: recs)
  have "chunk_id (out_records out ! i) = i
         \<and> 0 \<le> novelty (out_records out ! i) \<and> novelty (out_records out ! i) \<le> 1
         \<and> 0 \<le> redundancy (out_records out ! i) \<and> redundancy (out_records out ! i) \<le> 1
         \<and> energy (out_records out ! i)
              = novelty (out_records out ! i) * (1 - redundancy (out_records out ! i))
         \<and> 0 \<le> energy (out_records out ! i) \<and> energy (out_records out ! i) \<le> 1
         \<and> (Max (set (out_novelty_dist out)) - Min (set (out_novelty_dist out)) < 1 / 10 ^ 8
              \<longrightarrow> novelty (out_records out ! i) = 0)
         \<and> (Max (set (out_redundancy_sim out)) - Min (set (out_redundancy_sim out)) < 1 / 10 ^ 8
              \<longrightarrow> redundancy (out_records out ! i) = 0)"
    if i: "i < length embedded" for i
  proof -
    let ?r = "out_records out ! i"
    have id: "chunk_id ?r = i" using i by (simp add: recs make_record_def Let_def)
    have nv: "novelty ?r = out_novelty_norm out ! i"
      using i by (simp add: recs make_record_def Let_def)
    have rd: "redundancy ?r = out_redundancy_norm out ! i"
      using i by (simp add: recs make_record_def Let_def)
    have en: "energy ?r = out_novelty_norm out ! i * (1 - out_redundancy_norm out ! i)"
      using i ln lr by (simp add: recs make_record_def Let_def)
    have "out_novelty_norm out ! i \<in> set (minmax_norm (out_novelty_dist out))"
      using i ln nn by (metis nth_mem)
    then have n01: "0 \<le> novelty ?r \<and> novelty ?r \<le> 1" unfolding nv by (rule minmax_norm_range)
    have "out_redundancy_norm out ! i \<in> set (minmax_norm (out_redundancy_sim out))"
      using i lr rn by (metis nth_mem)
    then have r01: "0 \<le> redundancy ?r \<and> redundancy ?r \<le> 1"
      unfolding rd by (rule minmax_norm_range)
    have e: "energy ?r = novelty ?r * (1 - redundancy ?r)" using en nv rd by simp
    have e01: "0 \<le> energy ?r \<and> energy ?r \<le> 1"
      using n01 r01 e unit_interval_product[of "novelty ?r" "redundancy ?r"] by simp
    have dn: "Max (set (out_novelty_dist out)) - Min (set (out_novelty_dist out)) < 1 / 10 ^ 8
              \<longrightarrow> novelty ?r = 0"
      using minmax_norm_degenerate[OF ne1] i ld by (simp add: nv nn)
    have dr: "Max (set (out_redundancy_sim out)) - Min (set (out_redundancy_sim out)) < 1 / 10 ^ 8
              \<longrightarrow> redundancy ?r = 0"
      using minmax_norm_degenerate[OF ne2] i ls by (simp add: rd rn)
    show ?thesis using id n01 r01 e e01 dn dr by blast
  qed
  then show ?thesis using run len by blast
qed

subsection \<open>Bands and cut-points\<close>

lemma band_scan_takeWhile:
  "b + length qs = len \<Longrightarrow> band_scan len b qs x = b + length (takeWhile (\<lambda>q. q < x) qs)"
proof (induction qs arbitrary: b)
  case Nil
  then show ?case by simp
next
  case (Cons q qs)
  then show ?case by (cases "x \<le> q") (simp_all add: not_le)
qed

lemma band_of_eq: "band_of qs x = length (takeWhile (\<lambda>q. q < x) qs)"
  by (simp add: band_of_def band_scan_takeWhile)

lemma band_of_le: "band_of qs x \<le> length qs"
  by (simp add: band_of_eq length_takeWhile_le)

lemma band_of_hit: "band_of qs x < length qs \<Longrightarrow> x \<le> qs ! band_of qs x"
  using nth_length_takeWhile[of "\<lambda>q. q < x" qs] by (simp add: band_of_eq not_less)

lemma band_of_before: "j < band_of qs x \<Longrightarrow> qs ! j < x"
  unfolding band_of_eq by (rule takeWhile_prefix_holds)

lemma band_of_mono: "x \<le> y \<Longrightarrow> band_of qs x \<le> band_of qs y"
  unfolding band_of_eq by (induction qs) auto

lemma quantile_mono:
  assumes ne: "a \<noteq> []" and q1: "0 \<le> q1" and q12: "q1 \<le> q2" and q2: "q2 \<le> 1"
  shows "quantile a q1 \<le> quantile a q2"
proof -
  define s where "s = sort a"
  define m where "m = length s - 1"
  have sorted: "sorted s" by (simp add: s_def)
  have len: "length s = Suc m" using ne by (cases a) (simp_all add: s_def m_def)
  define h1 where "h1 = q1 * real m"
  define h2 where "h2 = q2 * real m"
  define l1 where "l1 = nat \<lfloor>h1\<rfloor>"
  define l2 where "l2 = nat \<lfloor>h2\<rfloor>"
  define u1 where "u1 = min (l1 + 1) m"
  define u2 where "u2 = min (l2 + 1) m"
  have h1_0: "0 \<le> h1" using q1 by (simp add: h1_def)
  have h12: "h1 \<le> h2" using q12 by (simp add: h1_def h2_def mult_right_mono)
  have h2_0: "0 \<le> h2" using h1_0 h12 by simp
  have h2_m: "h2 \<le> real m"
    using q2 mult_right_mono[of q2 1 "real m"] by (simp add: h2_def)
  have l1r: "real l1 \<le> h1" "h1 < real l1 + 1"
    using h1_0 by (simp_all add: l1_def)
  have l2r: "real l2 \<le> h2" "h2 < real l2 + 1"
    using h2_0 by (simp_all add: l2_def)
  have l12: "l1 \<le> l2" unfolding l1_def l2_def using h12 by (simp add: floor_mono nat_mono)
  have l2m: "l2 \<le> m" using l2r(1) h2_m by linarith
  have l1m: "l1 \<le> m" using l12 l2m by simp
  have lu1: "l1 \<le> u1" "u1 \<le> m" using l1m by (simp_all add: u1_def)
  have lu2: "l2 \<le> u2" "u2 \<le> m" using l2m by (simp_all add: u2_def)
  have s_le: "s ! i \<le> s ! j" if "i \<le> j" "j \<le> m" for i j
    using sorted that len by (simp add: sorted_iff_nth_mono)
  have d1: "0 \<le> s ! u1 - s ! l1" using s_le[OF lu1] by simp
  have d2: "0 \<le> s ! u2 - s ! l2" using s_le[OF lu2] by simp
  have m': "length s - Suc 0 = m" by (simp add: m_def)
  have f1: "quantile a q1 = s ! l1 + (s ! u1 - s ! l1) * (h1 - real l1)"
    by (simp add: quantile_def Let_def s_def[symmetric] m' h1_def l1_def u1_def)
  have f2: "quantile a q2 = s ! l2 + (s ! u2 - s ! l2) * (h2 - real l2)"
    by (simp add: quantile_def Let_def s_def[symmetric] m' h2_def l2_def u2_def)
  show ?thesis
  proof (cases "l1 = l2")
    case True
    then have u: "u1 = u2" by (simp add: u1_def u2_def)
    have "(s ! u2 - s ! l2) * (h1 - real l2) \<le> (s ! u2 - s ! l2) * (h2 - real l2)"
      using d2 h12 by (simp add: mult_left_mono)
    then show ?thesis unfolding f1 f2 using True u by simp
  next
    case False
    then have lt: "l1 < l2" using l12 by simp
    then have u1l2: "u1 \<le> l2" by (simp add: u1_def)
    have "(s ! u1 - s ! l1) * (h1 - real l1) \<le> (s ! u1 - s ! l1) * 1"
      using d1 l1r(2) by (intro mult_left_mono) simp_all
    then have "quantile a q1 \<le> s ! u1" unfolding f1 by simp
    also have "\<dots> \<le> s ! l2" using s_le[OF u1l2 l2m] .
    also have "\<dots> \<le> quantile a q2"
      unfolding f2 using d2 l2r(1) by simp
    finally show ?thesis .
  qed
qed

lemma cuts_sorted:
  assumes "a \<noteq> []" "sorted fractions" "\<forall>q\<in>set fractions. 0 \<le> q \<and> q \<le> 1"
  shows "sorted (map (quantile a) fractions)"
  using assms(2,3)
proof (induction fractions)
  case Nil
  then show ?case by simp
next
  case (Cons q qs)
  then show ?case using quantile_mono[OF assms(1)] by auto
qed

lemma compute_bands_spec:
  assumes "\<forall>q\<in>set quantiles. 0 \<le> q \<and> q \<le> 1"
  shows "compute_bands_for_pivot dists quantiles
     = Inr (map (band_of (map (quantile dists) quantiles)) dists)"
proof -
  have "\<not> list_ex (\<lambda>q. q < 0 \<or> 1 < q) quantiles"
    using assms by (auto simp: list_ex_iff)
  then show ?thesis by (simp add: compute_bands_for_pivot_def)
qed

lemma process_file_pivots:
  assumes run: "process_file rnd file_name embedded = Inr out" and ne: "embedded \<noteq> []"
  shows "out_pivots out = sort (selected_pivots rnd (map snd embedded)
            (min NUM_PIVOTS (max 1 (ceil_sqrt (length embedded)))))"
    and "distinct (out_pivots out)"
    and "sorted (out_pivots out)"
    and "out_pivots out \<noteq> []"
    and "\<forall>p\<in>set (out_pivots out). p < length embedded"
    and "\<forall>i<length embedded. out_assign_idx out ! i < length (out_pivots out)"
proof -
  let ?vecs = "map snd embedded"
  let ?mp = "min NUM_PIVOTS (max 1 (ceil_sqrt (length embedded)))"
  obtain out' where out': "process_file rnd file_name embedded = Inr out'"
    "out_pivots out' = greedy_farthest_pivots rnd ?vecs ?mp"
    "assign_to_nearest_pivot ?vecs (out_pivots out')
          = Inr (out_assign_idx out', out_novelty_dist out')"
    using process_file_Inr[OF ne, of rnd file_name] by blast
  have eq: "out' = out" using run out'(1) by simp
  note o = out'(2,3)[unfolded eq]
  have vne: "?vecs \<noteq> []" using ne by simp
  note g = greedy_props[OF vne, of rnd ?mp]
  show p1: "out_pivots out = sort (selected_pivots rnd ?vecs ?mp)" using o(1) g(5) by simp
  show "distinct (out_pivots out)" using o(1) g(1) by simp
  show "sorted (out_pivots out)" using o(1) g(2) by simp
  have "int (length (out_pivots out)) = max 1 (min ?mp (int (length ?vecs)))"
    unfolding o(1) by (rule g(4))
  then show pne: "out_pivots out \<noteq> []" by auto
  show valid: "\<forall>p\<in>set (out_pivots out). p < length embedded"
    using g(3) unfolding o(1) by auto
  have valid': "\<forall>p\<in>set (out_pivots out). p < length ?vecs" using valid by simp
  show "\<forall>i<length embedded. out_assign_idx out ! i < length (out_pivots out)"
    using assign_spec[OF pne valid'] o(2) by auto
qed

lemma pipeline_record_nth:
  assumes run: "process_file rnd file_name embedded = Inr out" and i: "i < length embedded"
  shows "length (out_records out) = length embedded"
    and "chunk_id (out_records out ! i) = i"
    and "pivot_local_index (out_records out ! i) = out_assign_idx out ! i"
    and "pivot_id (out_records out ! i) = out_pivots out ! (out_assign_idx out ! i)"
    and "band (out_records out ! i) = out_band_ids out ! i"
proof -
  have ne: "embedded \<noteq> []" using i by auto
  obtain out' where out': "process_file rnd file_name embedded = Inr out'"
     "out_records out' = map (make_record file_name (map fst embedded) (out_pivots out') (out_assign_idx out')
          (out_band_ids out') (out_novelty_norm out') (out_redundancy_norm out')
          (map2 (\<lambda>a b. a * (1 - b)) (out_novelty_norm out') (out_redundancy_norm out')))
          [0..<length embedded]"
    using process_file_Inr[OF ne, of rnd file_name] by blast
  have eq: "out' = out" using run out'(1) by simp
  note o = out'(2)[unfolded eq]
  show "length (out_records out) = length embedded" by (simp add: o)
  show "chunk_id (out_records out ! i) = i" using i by (simp add: o make_record_def Let_def)
  show "pivot_local_index (out_records out ! i) = out_assign_idx out ! i"
    using i by (simp add: o make_record_def Let_def)
  show "pivot_id (out_records out ! i) = out_pivots out ! (out_assign_idx out ! i)"
    using i by (simp add: o make_record_def Let_def)
  show "band (out_records out ! i) = out_band_ids out ! i"
    using i by (simp add: o make_record_def Let_def)
qed

lemma pipeline_band:
  assumes run: "process_file rnd file_name embedded = Inr out" and i: "i < length embedded"
  shows "out_band_ids out ! i
     = band_of (group_cuts (out_assign_idx out) (out_novelty_dist out) (out_assign_idx out ! i))
         (out_novelty_dist out ! i)"
proof -
  have ne: "embedded \<noteq> []" using i by auto
  obtain out' where out': "process_file rnd file_name embedded = Inr out'"
    "length (out_assign_idx out') = length embedded"
    "length (out_novelty_dist out') = length embedded"
    "band_loop (out_assign_idx out') (out_novelty_dist out') [0..<length (out_pivots out')]
          (replicate (length embedded) 0) = Inr (out_band_ids out')"
    using process_file_Inr[OF ne, of rnd file_name] by blast
  have eq: "out' = out" using run out'(1) by simp
  note o = out'(2-4)[unfolded eq]
  have ai: "out_assign_idx out ! i < length (out_pivots out)"
    using process_file_pivots(6)[OF run ne] i by simp
  have l1: "length (replicate (length embedded) (0::nat)) = length (out_assign_idx out)"
    using o(1) by simp
  have l2: "length (out_novelty_dist out) = length (out_assign_idx out)" using o(1,2) by simp
  show ?thesis
    using band_loop_result[OF l1 l2, of "[0..<length (out_pivots out)]"] o(3) i o(1) ai
    by auto
qed

lemma in_select_masked:
  "length d = length a \<Longrightarrow> i < length a \<Longrightarrow>
   d ! i \<in> set (select_masked d (map (\<lambda>x. x = a ! i) a))"
proof -
  assume l: "length d = length a" and i: "i < length a"
  have "(d ! i, True) \<in> set (zip d (map (\<lambda>x. x = a ! i) a))"
    using l i by (auto simp: set_zip intro!: exI[of _ i])
  then show ?thesis unfolding select_masked_def by force
qed

lemma pipeline_cuts_sorted:
  assumes run: "process_file rnd file_name embedded = Inr out" and i: "i < length embedded"
  shows "sorted (group_cuts (out_assign_idx out) (out_novelty_dist out) (out_assign_idx out ! i))"
proof -
  have ne: "embedded \<noteq> []" using i by auto
  obtain out' where out': "process_file rnd file_name embedded = Inr out'"
    "length (out_assign_idx out') = length embedded"
    "length (out_novelty_dist out') = length embedded"
    using process_file_Inr[OF ne, of rnd file_name] by blast
  have eq: "out' = out" using run out'(1) by simp
  note o = out'(2-3)[unfolded eq]
  have "out_novelty_dist out ! i \<in> set (select_masked (out_novelty_dist out)
      (map (\<lambda>x. x = out_assign_idx out ! i) (out_assign_idx out)))"
    using in_select_masked[of "out_novelty_dist out" "out_assign_idx out" i] o i by simp
  then have ne: "select_masked (out_novelty_dist out)
      (map (\<lambda>x. x = out_assign_idx out ! i) (out_assign_idx out)) \<noteq> []" by auto
  show ?thesis unfolding group_cuts_def
    by (rule cuts_sorted[OF ne]) (simp_all add: BAND_QUANTILES_def)
qed

lemma bands_function_level:
  assumes "\<forall>q\<in>set quantiles. 0 \<le> q \<and> q \<le> 1"
  shows "\<exists>bands. compute_bands_for_pivot dists quantiles = Inr bands
        \<and> length bands = length dists
        \<and> (\<forall>i<length dists. \<forall>j<length dists. dists ! i < dists ! j \<longrightarrow> bands ! i \<le> bands ! j)
        \<and> (\<forall>i<length dists.
              bands ! i \<le> length quantiles
            \<and> (bands ! i < length quantiles \<longrightarrow> dists ! i \<le> quantile dists (quantiles ! (bands ! i)))
            \<and> (\<forall>b<bands ! i. quantile dists (quantiles ! b) < dists ! i))
        \<and> (dists \<noteq> [] \<and> sorted quantiles \<longrightarrow> sorted (map (quantile dists) quantiles))"
proof -
  let ?qs = "map (quantile dists) quantiles"
  let ?bands = "map (band_of ?qs) dists"
  have r: "compute_bands_for_pivot dists quantiles = Inr ?bands"
    by (rule compute_bands_spec[OF assms])
  have mono: "\<forall>i<length dists. \<forall>j<length dists. dists ! i < dists ! j \<longrightarrow> ?bands ! i \<le> ?bands ! j"
    by (simp add: band_of_mono)
  have char: "?bands ! i \<le> length quantiles
            \<and> (?bands ! i < length quantiles \<longrightarrow> dists ! i \<le> quantile dists (quantiles ! (?bands ! i)))
            \<and> (\<forall>b<?bands ! i. quantile dists (quantiles ! b) < dists ! i)"
    if i: "i < length dists" for i
  proof -
    have bi: "?bands ! i = band_of ?qs (dists ! i)" using i by simp
    have 1: "band_of ?qs (dists ! i) \<le> length quantiles" using band_of_le[of ?qs] by simp
    have 2: "dists ! i \<le> quantile dists (quantiles ! band_of ?qs (dists ! i))"
      if "band_of ?qs (dists ! i) < length quantiles"
      using band_of_hit[of ?qs "dists ! i"] that by simp
    have 3: "quantile dists (quantiles ! b) < dists ! i" if "b < band_of ?qs (dists ! i)" for b
      using band_of_before[OF that] that 1 by simp
    show ?thesis unfolding bi using 1 2 3 by blast
  qed
  have srt: "dists \<noteq> [] \<and> sorted quantiles \<longrightarrow> sorted ?qs"
    using cuts_sorted[of dists quantiles] assms by blast
  show ?thesis using r mono char srt by (intro exI[of _ ?bands]) simp
qed

lemma bands_pipeline_level:
  assumes ne: "embedded \<noteq> []"
  shows "\<exists>out. process_file rnd file_name embedded = Inr out
       \<and> (\<forall>i<length embedded. \<forall>j<length embedded.
             pivot_local_index (out_records out ! i) = pivot_local_index (out_records out ! j)
           \<and> out_novelty_dist out ! i < out_novelty_dist out ! j
             \<longrightarrow> band (out_records out ! i) \<le> band (out_records out ! j))
       \<and> (\<forall>i<length embedded.
             band (out_records out ! i)
               = band_of (group_cuts (out_assign_idx out) (out_novelty_dist out)
                            (pivot_local_index (out_records out ! i)))
                   (out_novelty_dist out ! i)
           \<and> sorted (group_cuts (out_assign_idx out) (out_novelty_dist out)
                            (pivot_local_index (out_records out ! i))))"
proof -
  obtain out where run: "process_file rnd file_name embedded = Inr out"
    using process_file_Inr[OF ne, of rnd file_name] by blast
  have b: "band (out_records out ! i)
               = band_of (group_cuts (out_assign_idx out) (out_novelty_dist out)
                            (pivot_local_index (out_records out ! i)))
                   (out_novelty_dist out ! i)" if "i < length embedded" for i
    using pipeline_band[OF run that] pipeline_record_nth(3,5)[OF run that] by simp
  have s: "sorted (group_cuts (out_assign_idx out) (out_novelty_dist out)
                            (pivot_local_index (out_records out ! i)))" if "i < length embedded" for i
    using pipeline_cuts_sorted[OF run that] pipeline_record_nth(3)[OF run that] by simp
  have m: "band (out_records out ! i) \<le> band (out_records out ! j)"
    if "i < length embedded" "j < length embedded"
      "pivot_local_index (out_records out ! i) = pivot_local_index (out_records out ! j)"
      "out_novelty_dist out ! i < out_novelty_dist out ! j" for i j
    using b[OF that(1)] b[OF that(2)] that(3,4) by (simp add: band_of_mono)
  show ?thesis using run b s m by blast
qed

subsection \<open>Local indices and the sorted frame\<close>

lemma sorted_distinct_rank:
  fixes xs :: "nat list"
  assumes "sorted xs" "distinct xs" "i < length xs"
  shows "card {p \<in> set xs. p < xs ! i} = i"
proof -
  have strict: "xs ! j < xs ! k" if "j < k" "k < length xs" for j k
  proof -
    have "xs ! j \<le> xs ! k" using assms(1) that by (simp add: sorted_iff_nth_mono)
    moreover have "xs ! j \<noteq> xs ! k" using assms(2) that by (simp add: nth_eq_iff_index_eq)
    ultimately show ?thesis by simp
  qed
  have "{p \<in> set xs. p < xs ! i} = set (take i xs)"
  proof (intro set_eqI iffI)
    fix p assume "p \<in> {p \<in> set xs. p < xs ! i}"
    then obtain j where j: "j < length xs" "xs ! j = p" "p < xs ! i"
      by (auto simp: in_set_conv_nth)
    have "j < i"
    proof (rule ccontr)
      assume "\<not> j < i"
      then have "xs ! i \<le> xs ! j" using assms(1) j(1) by (simp add: sorted_iff_nth_mono)
      then show False using j(2,3) by simp
    qed
    then show "p \<in> set (take i xs)" using j(1,2) by (auto simp: in_set_conv_nth)
  next
    fix p assume "p \<in> set (take i xs)"
    then obtain j where j: "j < i" "xs ! j = p" using assms(3)
      by (auto simp: in_set_conv_nth)
    then show "p \<in> {p \<in> set xs. p < xs ! i}"
      using strict[OF j(1) assms(3)] assms(3) by auto
  qed
  moreover have "card (set (take i xs)) = i"
    using assms(2,3) by (simp add: distinct_card)
  ultimately show ?thesis by simp
qed

lemma pipeline_local_index:
  assumes ne: "embedded \<noteq> []"
  shows "\<exists>out. process_file rnd file_name embedded = Inr out
     \<and> sorted (out_pivots out) \<and> distinct (out_pivots out)
     \<and> out_pivots out = sort (selected_pivots rnd (map snd embedded)
            (min NUM_PIVOTS (max 1 (ceil_sqrt (length embedded)))))
     \<and> length (out_records out) = length embedded
     \<and> (\<forall>i<length embedded.
           pivot_local_index (out_records out ! i) < length (out_pivots out)
         \<and> pivot_id (out_records out ! i) = out_pivots out ! pivot_local_index (out_records out ! i)
         \<and> pivot_local_index (out_records out ! i)
              = card {p \<in> set (out_pivots out). p < pivot_id (out_records out ! i)})"
proof -
  obtain out where run: "process_file rnd file_name embedded = Inr out"
    using process_file_Inr[OF ne, of rnd file_name] by blast
  note p = process_file_pivots[OF run ne]
  have "pivot_local_index (out_records out ! i) < length (out_pivots out)
         \<and> pivot_id (out_records out ! i) = out_pivots out ! pivot_local_index (out_records out ! i)
         \<and> pivot_local_index (out_records out ! i)
              = card {p \<in> set (out_pivots out). p < pivot_id (out_records out ! i)}"
    if i: "i < length embedded" for i
  proof -
    let ?r = "out_records out ! i"
    have li: "pivot_local_index ?r = out_assign_idx out ! i"
      and pid: "pivot_id ?r = out_pivots out ! (out_assign_idx out ! i)"
      using pipeline_record_nth(3,4)[OF run i] by simp_all
    have lt: "pivot_local_index ?r < length (out_pivots out)" using p(6) i li by simp
    have "card {q \<in> set (out_pivots out). q < out_pivots out ! pivot_local_index ?r}
          = pivot_local_index ?r"
      by (rule sorted_distinct_rank[OF p(3) p(2) lt])
    then show ?thesis using lt li pid by simp
  qed
  moreover have i0: "0 < length embedded" using ne by simp
  moreover note pipeline_record_nth(1)[OF run i0]
  ultimately show ?thesis using run p(1,2,3) by blast
qed






section \<open>Properties\<close>

text \<open>
  C1, as the code has it: a run on a corpus of at least two chunks returns; its pivot
  list is the selection-order list sorted ascending, without duplicates, and the
  \<^verbatim>\<open>pivot_local_index\<close> in the record of every chunk is the position of its pivot in
  that sorted list, that is, the number of pivots with a smaller chunk index. The rank
  in selection order is not kept.
\<close>

theorem local_index_is_storage_rank:
  assumes "2 \<le> length embedded"
  shows "\<exists>out. process_file rnd file_name embedded = Inr out
     \<and> sorted (out_pivots out) \<and> distinct (out_pivots out)
     \<and> out_pivots out = sort (selected_pivots rnd (map snd embedded)
            (min NUM_PIVOTS (max 1 (ceil_sqrt (length embedded)))))
     \<and> length (out_records out) = length embedded
     \<and> (\<forall>i<length embedded.
           pivot_local_index (out_records out ! i) < length (out_pivots out)
         \<and> pivot_id (out_records out ! i) = out_pivots out ! pivot_local_index (out_records out ! i)
         \<and> pivot_local_index (out_records out ! i)
              = card {p \<in> set (out_pivots out). p < pivot_id (out_records out ! i)})"
proof -
  have "embedded \<noteq> []" using assms by auto
  then show ?thesis by (rule pipeline_local_index)
qed

theorem local_index_is_storage_rank_witness:
  "2 \<le> length [(''aa'', [1, 0 :: real]), (''bb'', [0, 1]), (''cc'', [1, 0])]
   \<and> selected_pivots (\<lambda>_. 0) [[1, 0], [0, 1], [1, 0]] (min NUM_PIVOTS (max 1 (ceil_sqrt 3))) = [1, 0]
   \<and> map_sum id (\<lambda>out. (out_pivots out,
                          map pivot_id (out_records out),
                          map pivot_local_index (out_records out)))
        (process_file (\<lambda>_. 0) ''doc.txt'' [(''aa'', [1, 0]), (''bb'', [0, 1]), (''cc'', [1, 0])])
       = Inr ([0, 1], [0, 1, 0], [0, 1, 0])"
proof -
  have h: "2 \<le> length [(''aa'', [1, 0 :: real]), (''bb'', [0, 1]), (''cc'', [1, 0])]" by simp
  note t = local_index_is_storage_rank [OF h, of "\<lambda>_. 0" "''doc.txt''"]
  have a: "selected_pivots (\<lambda>_. 0) [[1, 0], [0, 1], [1, 0]] (min NUM_PIVOTS (max 1 (ceil_sqrt 3))) = [1, 0]"
    by code_simp
  have b: "map_sum id (\<lambda>out. (out_pivots out,
                          map pivot_id (out_records out),
                          map pivot_local_index (out_records out)))
        (process_file (\<lambda>_. 0) ''doc.txt'' [(''aa'', [1, 0]), (''bb'', [0, 1]), (''cc'', [1, 0])])
       = Inr ([0, 1], [0, 1, 0], [0, 1, 0])" by code_simp
  show ?thesis using t a b by simp
qed

text \<open>
  C1 as stated fails: on the three vectors \<open>(1, 0), (0, 1), (1, 0)\<close> the seed is chunk 1,
  chosen first, and chunk 0 is chosen second; the record of chunk 1 has pivot 1 with
  local index 1, not its selection rank 0.
\<close>

theorem local_index_selection_rank_counterexample:
  "selected_pivots (\<lambda>_. 0) [[1, 0], [0, 1], [1, 0]] (min NUM_PIVOTS (max 1 (ceil_sqrt 3))) = [1, 0]
   \<and> map_sum id (\<lambda>out. (pivot_id (out_records out ! 1), pivot_local_index (out_records out ! 1)))
        (process_file (\<lambda>_. 0) ''doc.txt'' [(''aa'', [1, 0]), (''bb'', [0, 1]), (''cc'', [1, 0])])
       = Inr (1, 1)
   \<and> map_sum id (\<lambda>out. list_all (\<lambda>r.
            selected_pivots (\<lambda>_. 0) [[1, 0], [0, 1], [1, 0]] (min NUM_PIVOTS (max 1 (ceil_sqrt 3)))
              ! pivot_local_index r = pivot_id r) (out_records out))
        (process_file (\<lambda>_. 0) ''doc.txt'' [(''aa'', [1, 0]), (''bb'', [0, 1]), (''cc'', [1, 0])])
       = Inr False"
  by code_simp

text \<open>
  C2: on the one-vector corpus \<open>[[1, 0]]\<close> with \<open>K = 16\<close> the Redundancy Estimator returns
  the raw redundancy 1, the similarity of the vector to itself, and not 0. The search
  returns one column, the self-match; the column is dropped only when there is more
  than one, and the zero fallback for an empty similarity array is not reached. The
  comments of the function say that the mean excludes the self-match.
\<close>

theorem knn_redundancy_single_keeps_self:
  "knn_redundancy [[1, 0]] 16 = Inr [1]"
  by (simp add: knn_redundancy_def index_search_def matvec_def mean_def Let_def dot_def)




text \<open>
  C4: for a corpus of \<open>N \<ge> 1\<close> vectors and \<^verbatim>\<open>max_pivots\<close> at least 1 (and every state
  of the random generator) the Pivot Selector returns a duplicate-free list of indices
  below \<open>N\<close>, with at least one entry and at most \<open>min(max_pivots, N)\<close> entries. A run on
  a non-empty corpus returns, and its pivot count is the minimum of the configured
  maximum \<^verbatim>\<open>NUM_PIVOTS\<close> and \<open>ceil(sqrt(N))\<close>.
\<close>

theorem pivot_selector_bounds:
  "(vecs \<noteq> [] \<and> 1 \<le> max_pivots \<longrightarrow>
      distinct (greedy_farthest_pivots rnd vecs max_pivots)
    \<and> (\<forall>p\<in>set (greedy_farthest_pivots rnd vecs max_pivots). p < length vecs)
    \<and> 1 \<le> length (greedy_farthest_pivots rnd vecs max_pivots)
    \<and> int (length (greedy_farthest_pivots rnd vecs max_pivots)) \<le> min max_pivots (int (length vecs)))
   \<and> (embedded \<noteq> [] \<longrightarrow>
        (\<exists>out. process_file rnd' file_name embedded = Inr out
           \<and> int (length (out_pivots out)) = min NUM_PIVOTS (ceil_sqrt (length embedded))))"
proof (intro conjI impI)
  assume a: "vecs \<noteq> [] \<and> 1 \<le> max_pivots"
  then have ne: "vecs \<noteq> []" and mp: "1 \<le> max_pivots" by simp_all
  have n: "1 \<le> int (length vecs)" using ne by (cases vecs) simp_all
  note g = greedy_props[OF ne, of rnd max_pivots]
  show "distinct (greedy_farthest_pivots rnd vecs max_pivots)" by (rule g(1))
  show "\<forall>p\<in>set (greedy_farthest_pivots rnd vecs max_pivots). p < length vecs"
    using g(3) by auto
  have len: "int (length (greedy_farthest_pivots rnd vecs max_pivots)) = min max_pivots (int (length vecs))"
    using g(4) mp n by simp
  show "1 \<le> length (greedy_farthest_pivots rnd vecs max_pivots)" using len mp n by linarith
  show "int (length (greedy_farthest_pivots rnd vecs max_pivots)) \<le> min max_pivots (int (length vecs))"
    using len by simp
next
  assume "embedded \<noteq> []"
  then show "\<exists>out. process_file rnd' file_name embedded = Inr out
           \<and> int (length (out_pivots out)) = min NUM_PIVOTS (ceil_sqrt (length embedded))"
    by (rule pipeline_count)
qed

theorem pivot_selector_bounds_witness:
  "greedy_farthest_pivots (\<lambda>_. 5) [[1, 0], [1, 0], [0, 1]] 2 = [0, 2]
   \<and> greedy_farthest_pivots (\<lambda>_. 5) [[1, 0], [1, 0]] 7 = [0, 1]
   \<and> map_sum id out_pivots
        (process_file (\<lambda>_. 5) ''doc.txt'' [(''aa'', [1, 0]), (''bb'', [0, 1]), (''cc'', [1, 0])])
       = Inr [0, 1]
   \<and> min NUM_PIVOTS (ceil_sqrt 3) = 2"
proof -
  note t = pivot_selector_bounds [of "[[1, 0], [1, 0], [0, 1]]" 2 "\<lambda>_. 5"
      "[(''aa'', [1, 0]), (''bb'', [0, 1]), (''cc'', [1, 0])]" "\<lambda>_. 5" "''doc.txt''"]
  have a: "greedy_farthest_pivots (\<lambda>_. 5) [[1, 0], [1, 0], [0, 1]] 2 = [0, 2]" by code_simp
  have b: "greedy_farthest_pivots (\<lambda>_. 5) [[1, 0], [1, 0]] 7 = [0, 1]" by code_simp
  have c: "map_sum id out_pivots
        (process_file (\<lambda>_. 5) ''doc.txt'' [(''aa'', [1, 0]), (''bb'', [0, 1]), (''cc'', [1, 0])])
       = Inr [0, 1]" by code_simp
  have d: "min NUM_PIVOTS (ceil_sqrt 3) = 2" by code_simp
  show ?thesis using t a b c d by simp
qed

text \<open>
  C5: for a non-empty list of pivots (each a chunk index) the Assigner returns one
  assignment and one distance per chunk. The assigned position \<open>best ! i\<close> is a
  position of the pivot list at which the similarity to chunk \<open>i\<close> is maximal, every
  earlier position has a strictly smaller similarity (the first maximum of an ascending
  scan wins a tie), and the recorded distance is one minus that maximal similarity.
\<close>

theorem assign_to_nearest_pivot_argmax:
  assumes "pivots \<noteq> []" and "\<forall>p\<in>set pivots. p < length vecs"
  shows "\<exists>best dist. assign_to_nearest_pivot vecs pivots = Inr (best, dist)
      \<and> length best = length vecs \<and> length dist = length vecs
      \<and> (\<forall>i<length vecs.
            best ! i < length pivots
          \<and> (\<forall>j<length pivots.
                dot (vecs ! i) (vecs ! (pivots ! j)) \<le> dot (vecs ! i) (vecs ! (pivots ! (best ! i))))
          \<and> (\<forall>j<best ! i.
                dot (vecs ! i) (vecs ! (pivots ! j)) < dot (vecs ! i) (vecs ! (pivots ! (best ! i))))
          \<and> dist ! i = 1 - dot (vecs ! i) (vecs ! (pivots ! (best ! i))))"
  using assms by (rule assign_spec)

theorem assign_to_nearest_pivot_argmax_witness:
  "assign_to_nearest_pivot [[1, 0], [0, 1], [1, 0], [3 / 5, 4 / 5]] [0, 1]
     = Inr ([0, 1, 0, 1], [0, 0, 0, 1 / 5])"
  using assign_to_nearest_pivot_argmax [of "[0, 1]" "[[1, 0], [0, 1], [1, 0], [3 / 5, 4 / 5]]"]
  by (simp add: assign_to_nearest_pivot_def matmul_T_def dot_def argmax_def)

text \<open>
  C6: for quantile fractions in \<open>[0, 1]\<close> the band calculator returns one band per
  distance; a smaller distance never gets a larger band; the band of a distance is at
  most \<open>Q\<close>, the number of cut-points, it is the first position whose cut-point is at
  least the distance (every earlier cut-point is below the distance), and \<open>Q\<close> exactly
  when all cut-points are below it; ascending fractions give ascending cut-points. In
  every run on a non-empty corpus, two chunks assigned to the same pivot with distances \<open>d(A) < d(B)\<close> have
  bands \<open>band(A) \<le> band(B)\<close>, each band being the band of the chunk's distance among
  the ascending cut-points of its own pivot group.
\<close>

theorem band_monotone_in_distance:
  "((\<forall>q\<in>set quantiles. 0 \<le> q \<and> q \<le> 1) \<longrightarrow>
      (\<exists>bands. compute_bands_for_pivot dists quantiles = Inr bands
        \<and> length bands = length dists
        \<and> (\<forall>i<length dists. \<forall>j<length dists. dists ! i < dists ! j \<longrightarrow> bands ! i \<le> bands ! j)
        \<and> (\<forall>i<length dists.
              bands ! i \<le> length quantiles
            \<and> (bands ! i < length quantiles \<longrightarrow> dists ! i \<le> quantile dists (quantiles ! (bands ! i)))
            \<and> (\<forall>b<bands ! i. quantile dists (quantiles ! b) < dists ! i))
        \<and> (dists \<noteq> [] \<and> sorted quantiles \<longrightarrow> sorted (map (quantile dists) quantiles))))
   \<and> (embedded \<noteq> [] \<longrightarrow>
      (\<exists>out. process_file rnd file_name embedded = Inr out
       \<and> (\<forall>i<length embedded. \<forall>j<length embedded.
             pivot_local_index (out_records out ! i) = pivot_local_index (out_records out ! j)
           \<and> out_novelty_dist out ! i < out_novelty_dist out ! j
             \<longrightarrow> band (out_records out ! i) \<le> band (out_records out ! j))
       \<and> (\<forall>i<length embedded.
             band (out_records out ! i)
               = band_of (group_cuts (out_assign_idx out) (out_novelty_dist out)
                            (pivot_local_index (out_records out ! i)))
                   (out_novelty_dist out ! i)
           \<and> sorted (group_cuts (out_assign_idx out) (out_novelty_dist out)
                            (pivot_local_index (out_records out ! i))))))"
  using bands_function_level[of quantiles dists] bands_pipeline_level[of embedded rnd file_name]
  by blast

theorem band_monotone_in_distance_witness:
  "list_all (\<lambda>q. 0 \<le> q \<and> q \<le> 1) BAND_QUANTILES
   \<and> map (quantile [1 / 5, 0, 1 / 13, 0, 1 / 2]) BAND_QUANTILES = [0, 1 / 13, 1 / 5]
   \<and> compute_bands_for_pivot [1 / 5, 0, 1 / 13, 0, 1 / 2] BAND_QUANTILES = Inr [2, 0, 1, 0, 3]
   \<and> map_sum id (\<lambda>out. (out_assign_idx out, out_novelty_dist out, map band (out_records out)))
        (process_file (\<lambda>_. 0) ''doc.txt''
           [(''aa'', [1, 0]), (''bb'', [0, 1]), (''cc'', [3 / 5, 4 / 5]), (''dd'', [5 / 13, 12 / 13])])
       = Inr ([0, 1, 1, 1], [0, 0, 1 / 5, 1 / 13], [0, 0, 3, 1])"
proof -
  note t = band_monotone_in_distance [of BAND_QUANTILES "[1 / 5, 0, 1 / 13, 0, 1 / 2]"
      "[(''aa'', [1, 0]), (''bb'', [0, 1]), (''cc'', [3 / 5, 4 / 5]), (''dd'', [5 / 13, 12 / 13])]"
      "\<lambda>_. 0" "''doc.txt''"]
  have a: "list_all (\<lambda>q. 0 \<le> q \<and> q \<le> 1) BAND_QUANTILES" by code_simp
  have b: "map (quantile [1 / 5, 0, 1 / 13, 0, 1 / 2]) BAND_QUANTILES = [0, 1 / 13, 1 / 5]"
    by code_simp
  have c: "compute_bands_for_pivot [1 / 5, 0, 1 / 13, 0, 1 / 2] BAND_QUANTILES = Inr [2, 0, 1, 0, 3]"
    by code_simp
  have d: "map_sum id (\<lambda>out. (out_assign_idx out, out_novelty_dist out, map band (out_records out)))
        (process_file (\<lambda>_. 0) ''doc.txt''
           [(''aa'', [1, 0]), (''bb'', [0, 1]), (''cc'', [3 / 5, 4 / 5]), (''dd'', [5 / 13, 12 / 13])])
       = Inr ([0, 1, 1, 1], [0, 0, 1 / 5, 1 / 13], [0, 0, 3, 1])" by code_simp
  show ?thesis using t a b c d by simp
qed

text \<open>
  C7: every value of a min-max normalised array lies in \<open>[0, 1]\<close>, and a non-empty array
  whose maximum and minimum differ by less than \<open>1e-8\<close> is normalised to zeros. A run on a
  non-empty corpus returns one record per chunk, and for every chunk the novelty and the
  redundancy lie in \<open>[0, 1]\<close>, the energy is novelty times one minus redundancy and lies
  in \<open>[0, 1]\<close>, and a score whose raw values over the corpus are within \<open>1e-8\<close> of each
  other is 0.
\<close>

theorem scores_in_unit_interval:
  "(\<forall>y\<in>set (minmax_norm x). 0 \<le> y \<and> y \<le> 1)
   \<and> (x \<noteq> [] \<and> Max (set x) - Min (set x) < 1 / 10 ^ 8
        \<longrightarrow> minmax_norm x = replicate (length x) 0)
   \<and> (embedded \<noteq> [] \<longrightarrow>
       (\<exists>out. process_file rnd file_name embedded = Inr out
         \<and> length (out_records out) = length embedded
         \<and> (\<forall>i<length embedded.
               chunk_id (out_records out ! i) = i
             \<and> 0 \<le> novelty (out_records out ! i) \<and> novelty (out_records out ! i) \<le> 1
             \<and> 0 \<le> redundancy (out_records out ! i) \<and> redundancy (out_records out ! i) \<le> 1
             \<and> energy (out_records out ! i)
                  = novelty (out_records out ! i) * (1 - redundancy (out_records out ! i))
             \<and> 0 \<le> energy (out_records out ! i) \<and> energy (out_records out ! i) \<le> 1
             \<and> (Max (set (out_novelty_dist out)) - Min (set (out_novelty_dist out)) < 1 / 10 ^ 8
                  \<longrightarrow> novelty (out_records out ! i) = 0)
             \<and> (Max (set (out_redundancy_sim out)) - Min (set (out_redundancy_sim out)) < 1 / 10 ^ 8
                  \<longrightarrow> redundancy (out_records out ! i) = 0))))"
proof -
  have "\<forall>y\<in>set (minmax_norm x). 0 \<le> y \<and> y \<le> 1" using minmax_norm_range by blast
  moreover have "x \<noteq> [] \<and> Max (set x) - Min (set x) < 1 / 10 ^ 8
        \<longrightarrow> minmax_norm x = replicate (length x) 0"
    using minmax_norm_degenerate by blast
  ultimately show ?thesis
    using pipeline_scores[of embedded rnd file_name] by blast
qed

theorem scores_in_unit_interval_witness:
  "minmax_norm [0, 0, 1 / 5, 1 / 13] = [0, 0, 1, 5 / 13]
   \<and> minmax_norm [1 / 2, 1 / 2 + 1 / 10 ^ 9] = [0, 0]
   \<and> map_sum id (\<lambda>out. map (\<lambda>r. (novelty r, redundancy r, energy r)) (out_records out))
        (process_file (\<lambda>_. 0) ''doc.txt''
           [(''aa'', [1, 0]), (''bb'', [0, 1]), (''cc'', [3 / 5, 4 / 5]), (''dd'', [5 / 13, 12 / 13])])
       = Inr [(0, 0, 0), (0, 8 / 15, 0), (1, 1, 0), (5 / 13, 14 / 15, 1 / 39)]"
proof -
  note t = scores_in_unit_interval [of "[0, 0, 1 / 5, 1 / 13]"
      "[(''aa'', [1, 0]), (''bb'', [0, 1]), (''cc'', [3 / 5, 4 / 5]), (''dd'', [5 / 13, 12 / 13])]"
      "\<lambda>_. 0" "''doc.txt''"]
  have a: "minmax_norm [0, 0, 1 / 5, 1 / 13] = [0, 0, 1, 5 / 13]" by code_simp
  have b: "minmax_norm [1 / 2, 1 / 2 + 1 / 10 ^ 9] = [0, 0]" by code_simp
  have c: "map_sum id (\<lambda>out. map (\<lambda>r. (novelty r, redundancy r, energy r)) (out_records out))
        (process_file (\<lambda>_. 0) ''doc.txt''
           [(''aa'', [1, 0]), (''bb'', [0, 1]), (''cc'', [3 / 5, 4 / 5]), (''dd'', [5 / 13, 12 / 13])])
       = Inr [(0, 0, 0), (0, 8 / 15, 0), (1, 1, 0), (5 / 13, 14 / 15, 1 / 39)]" by code_simp
  show ?thesis using t a b c by simp
qed

text \<open>
  C9: for the empty corpus and every \<^verbatim>\<open>max_pivots\<close> (and every state of the random
  generator) the Pivot Selector returns the empty list; it raises nothing.
\<close>

theorem greedy_farthest_pivots_empty:
  "greedy_farthest_pivots rnd [] max_pivots = []"
  by (simp add: greedy_farthest_pivots_def)

text \<open>
  C10: for every vector matrix, the Assigner called with the empty pivot list returns
  the empty assignment array and the empty distance array; it raises nothing.
\<close>

theorem assign_to_nearest_pivot_no_pivots:
  "assign_to_nearest_pivot vecs [] = Inr ([], [])"
  by (simp add: assign_to_nearest_pivot_def)

end
